theory Spec2Isabelle
  imports Complex_Main
begin

section \<open>The simulations of ch2.ipynb\<close>

text \<open>
  The notebook holds three pieces of code: the two-children cells (boolean masks over two
  arrays of genders), the function \<^verbatim>\<open>monty\<close> (one Monty Hall game) and the cells that
  repeat a trial \<open>n\<close> times and print a frequency. They are embedded here with the
  random source and the console made explicit.
\<close>

subsection \<open>Errors\<close>

text \<open>
  The exceptions of the Python run time that the code can raise, and the two error kinds
  that only the specification names (\<open>InvalidInput\<close>, \<open>DegenerateTrialCount\<close>): no line
  of the notebook raises those two, they are here so that statements about them can be
  written.
\<close>

datatype error =
    InvalidInput
  | DegenerateTrialCount
  | IndexError
  | ValueError
  | ZeroDivisionError
  | EOFError

subsection \<open>The random source\<close>

text \<open>
  \<^verbatim>\<open>numpy.random.choice\<close> reads the module-level generator. The generator is modelled as
  the stream of raw draws still to come; one call of \<^verbatim>\<open>choice(a)\<close> takes the first draw
  \<open>r\<close>, returns the element of \<open>a\<close> at index \<open>r mod length a\<close> (every element is reached,
  each by one residue class) and leaves the rest of the stream. On an empty population
  NumPy raises \<^verbatim>\<open>ValueError\<close>.
\<close>

type_synonym rng = "nat \<Rightarrow> nat"

definition next_draw :: "rng \<Rightarrow> nat \<times> rng" where
  "next_draw g = (g 0, \<lambda>i. g (Suc i))"

definition const_draws :: "nat \<Rightarrow> rng" where
  "const_draws r = (\<lambda>i. r)"

definition cons_draw :: "nat \<Rightarrow> rng \<Rightarrow> rng" where
  "cons_draw r g = (\<lambda>i. case i of 0 \<Rightarrow> r | Suc j \<Rightarrow> g j)"

definition choice :: "int list \<Rightarrow> rng \<Rightarrow> (error + int) \<times> rng" where
  "choice a g =
     (if a = [] then (Inl ValueError, g)
      else (case next_draw g of (r, g') \<Rightarrow> (Inr (a ! (r mod length a)), g')))"

text \<open>\<^verbatim>\<open>choice(population, n, replace=True)\<close>: \<open>n\<close> draws in a row; a negative size is refused.\<close>

fun choices :: "int list \<Rightarrow> nat \<Rightarrow> rng \<Rightarrow> (error + int list) \<times> rng" where
  "choices a 0 g = (Inr [], g)"
| "choices a (Suc k) g =
     (case choice a g of
        (Inl e, g') \<Rightarrow> (Inl e, g')
      | (Inr x, g') \<Rightarrow>
          (case choices a k g' of
             (Inl e, g'') \<Rightarrow> (Inl e, g'')
           | (Inr xs, g'') \<Rightarrow> (Inr (x # xs), g'')))"

definition choice_size :: "int list \<Rightarrow> int \<Rightarrow> rng \<Rightarrow> (error + int list) \<times> rng" where
  "choice_size a n g = (if n < 0 then (Inl ValueError, g) else choices a (nat n) g)"

subsection \<open>The NumPy values the code computes with\<close>

text \<open>
  A local of \<^verbatim>\<open>monty\<close> holds either a scalar or a one-dimensional array: \<^verbatim>\<open>doors[mask]\<close> is
  an array even when it has one element, \<^verbatim>\<open>choice(a)\<close> is a scalar.
\<close>

datatype npval = Scalar int | Arr "int list"

definition arange :: "nat \<Rightarrow> int list" where
  "arange k = map int [0..<k]"

text \<open>
  \<^verbatim>\<open>a != v\<close> and \<^verbatim>\<open>a == v\<close>, elementwise with broadcasting: a scalar or an array of one
  element is compared with every element of \<open>a\<close>, an array of the length of \<open>a\<close> element by
  element. Other shapes do not broadcast, and NumPy raises \<^verbatim>\<open>ValueError\<close>.
\<close>

definition cmp_mask :: "(int \<Rightarrow> int \<Rightarrow> bool) \<Rightarrow> int list \<Rightarrow> npval \<Rightarrow> error + bool list" where
  "cmp_mask f a v =
     (case v of
        Scalar s \<Rightarrow> Inr (map (\<lambda>d. f d s) a)
      | Arr xs \<Rightarrow>
          if length xs = 1 then Inr (map (\<lambda>d. f d (hd xs)) a)
          else if length xs = length a then Inr (map2 f a xs)
          else if length a = 1 then Inr (map (\<lambda>x. f (hd a) x) xs)
          else Inl ValueError)"

definition ne_mask :: "int list \<Rightarrow> npval \<Rightarrow> error + bool list" where
  "ne_mask a v = cmp_mask (\<lambda>d x. d \<noteq> x) a v"

definition eq_mask :: "int list \<Rightarrow> npval \<Rightarrow> error + bool list" where
  "eq_mask a v = cmp_mask (\<lambda>d x. d = x) a v"

text \<open>
  \<^verbatim>\<open>np.all([m1, m2], axis=0)\<close> and \<^verbatim>\<open>np.any([m1, m2], axis=0)\<close>: the two masks are stacked
  and combined position by position; masks of different lengths do not stack.
\<close>

definition np_all_axis0 :: "bool list \<Rightarrow> bool list \<Rightarrow> error + bool list" where
  "np_all_axis0 m1 m2 =
     (if length m1 = length m2 then Inr (map2 (\<lambda>p q. p \<and> q) m1 m2) else Inl ValueError)"

definition np_any_axis0 :: "bool list \<Rightarrow> bool list \<Rightarrow> error + bool list" where
  "np_any_axis0 m1 m2 =
     (if length m1 = length m2 then Inr (map2 (\<lambda>p q. p \<or> q) m1 m2) else Inl ValueError)"

text \<open>\<^verbatim>\<open>a[mask]\<close>: the elements of \<open>a\<close> where the mask is true; the mask must have the length of \<open>a\<close>.\<close>

definition mask_select :: "int list \<Rightarrow> bool list \<Rightarrow> error + int list" where
  "mask_select a m =
     (if length m = length a then Inr (map fst (filter snd (zip a m))) else Inl IndexError)"

text \<open>\<^verbatim>\<open>np.sum(mask)\<close>: the number of true entries.\<close>

definition np_sum :: "bool list \<Rightarrow> nat" where
  "np_sum m = length (filter (\<lambda>b. b) m)"

text \<open>\<^verbatim>\<open>doors[np.all([doors != x, doors != y], axis=0)]\<close>, the expression used three times in \<^verbatim>\<open>monty\<close>.\<close>

definition neither :: "int list \<Rightarrow> npval \<Rightarrow> npval \<Rightarrow> error + npval" where
  "neither doors x y =
     (case ne_mask doors x of
        Inl e \<Rightarrow> Inl e
      | Inr m1 \<Rightarrow>
          (case ne_mask doors y of
             Inl e \<Rightarrow> Inl e
           | Inr m2 \<Rightarrow>
               (case np_all_axis0 m1 m2 of
                  Inl e \<Rightarrow> Inl e
                | Inr m \<Rightarrow>
                    (case mask_select doors m of
                       Inl e \<Rightarrow> Inl e
                     | Inr xs \<Rightarrow> Inr (Arr xs)))))"

text \<open>
  The truth value of \<^verbatim>\<open>chosen == cardoor\<close> in an \<^verbatim>\<open>if\<close>: the comparison of a scalar, the
  single element of a one-element array, false for an empty array (as the NumPy of the
  notebook's Python 2.7 has it), and \<^verbatim>\<open>ValueError\<close> for an array of several elements.
\<close>

definition truth_eq :: "npval \<Rightarrow> int \<Rightarrow> error + bool" where
  "truth_eq v c =
     (case v of
        Scalar s \<Rightarrow> Inr (s = c)
      | Arr [] \<Rightarrow> Inr False
      | Arr [x] \<Rightarrow> Inr (x = c)
      | Arr (x # y # zs) \<Rightarrow> Inl ValueError)"

subsection \<open>The Monty Hall trial\<close>

text \<open>
  The console of the interactive mode: what \<^verbatim>\<open>int(input(...))\<close> gives for the door (the
  integer, or the exception of the conversion when the entry is not a number) and the
  string \<^verbatim>\<open>str(input(...))\<close> gives for the reply. The lines the function prints are not
  modelled.
\<close>

record console =
  door_entry :: "error + int"
  reply :: string

definition idle_console :: console where
  "idle_console = \<lparr>door_entry = Inl EOFError, reply = []\<rparr>"

text \<open>
  Monty's door:
  \<^verbatim>\<open>
    if chosen != cardoor:
        montydoor = doors[np.all([doors != chosen, doors != cardoor], axis=0)]
    else:
        montydoor = choice(doors[doors != chosen])
  \<close>
\<close>

definition pick_montydoor :: "int list \<Rightarrow> int \<Rightarrow> int \<Rightarrow> rng \<Rightarrow> (error + npval) \<times> rng" where
  "pick_montydoor doors chosen cardoor g =
     (if chosen \<noteq> cardoor then (neither doors (Scalar chosen) (Scalar cardoor), g)
      else
        (case ne_mask doors (Scalar chosen) of
           Inl e \<Rightarrow> (Inl e, g)
         | Inr m \<Rightarrow>
             (case mask_select doors m of
                Inl e \<Rightarrow> (Inl e, g)
              | Inr others \<Rightarrow>
                  (case choice others g of
                     (Inl e, g') \<Rightarrow> (Inl e, g')
                   | (Inr d, g') \<Rightarrow> (Inr (Scalar d), g')))))"

text \<open>The switch: \<^verbatim>\<open>chosen = doors[np.all([doors != chosen, doors != montydoor], axis=0)]\<close>.\<close>

definition switch_door :: "int list \<Rightarrow> npval \<Rightarrow> npval \<Rightarrow> error + npval" where
  "switch_door doors chosen montydoor = neither doors chosen montydoor"

text \<open>
  The decision: the simulation always switches; the interactive mode reads the reply and
  switches when \<^verbatim>\<open>reply[0] == 'y'\<close>, where \<^verbatim>\<open>reply[0]\<close> raises \<^verbatim>\<open>IndexError\<close> on the empty
  string.
\<close>

definition decide :: "bool \<Rightarrow> string \<Rightarrow> int list \<Rightarrow> int \<Rightarrow> npval \<Rightarrow> error + npval" where
  "decide simulate rep doors chosen montydoor =
     (if \<not> simulate then
        (case rep of
           [] \<Rightarrow> Inl IndexError
         | c # cs \<Rightarrow>
             if c = CHR ''y'' then switch_door doors (Scalar chosen) montydoor
             else Inr (Scalar chosen))
      else switch_door doors (Scalar chosen) montydoor)"

text \<open>
  \<^verbatim>\<open>monty(simulate)\<close>: draw the car's door, take the player's door (0 in the simulation),
  pick Monty's door, decide, and return whether the final door is the car's.
\<close>

definition monty :: "bool \<Rightarrow> console \<Rightarrow> rng \<Rightarrow> (error + bool) \<times> rng" where
  "monty simulate con g =
     (let doors = arange 3 in
      case choice doors g of
        (Inl e, g1) \<Rightarrow> (Inl e, g1)
      | (Inr cardoor, g1) \<Rightarrow>
          (case (if \<not> simulate then door_entry con else Inr 0) of
             Inl e \<Rightarrow> (Inl e, g1)
           | Inr chosen \<Rightarrow>
               (case pick_montydoor doors chosen cardoor g1 of
                  (Inl e, g2) \<Rightarrow> (Inl e, g2)
                | (Inr montydoor, g2) \<Rightarrow>
                    (case decide simulate (reply con) doors chosen montydoor of
                       Inl e \<Rightarrow> (Inl e, g2)
                     | Inr chosen' \<Rightarrow> (truth_eq chosen' cardoor, g2)))))"

text \<open>The door the first draw of a generator puts the car behind.\<close>

definition cardoor_of :: "rng \<Rightarrow> int" where
  "cardoor_of g = arange 3 ! (g 0 mod 3)"

text \<open>The elements a value holds: the door or doors that \<^verbatim>\<open>montydoor\<close> names.\<close>

fun elems :: "npval \<Rightarrow> int list" where
  "elems (Scalar s) = [s]"
| "elems (Arr xs) = xs"

subsection \<open>Repeating the trial\<close>

text \<open>
  The quotient \<^verbatim>\<open>np.sum(...)/float(n)\<close> is a division of a NumPy scalar: where the divisor
  is zero it raises nothing, it gives \<^verbatim>\<open>nan\<close> (for 0/0) or an infinity, with a warning.
  Otherwise the result is the double that the division of the two operands yields; it is
  kept as \<open>Ratio x y\<close>, the operands themselves, and its rounding is not computed.
\<close>

datatype npfloat = NaN | PosInf | NegInf | Ratio rat rat

definition np_true_divide :: "rat \<Rightarrow> rat \<Rightarrow> npfloat" where
  "np_true_divide x y =
     (if y = 0 then (if x = 0 then NaN else if 0 < x then PosInf else NegInf)
      else Ratio x y)"

text \<open>
  Whether the exact ratio of the operands of a printed quotient lies within \<open>eps\<close> of \<open>p\<close>;
  false for an exception, \<^verbatim>\<open>nan\<close> and the infinities.
\<close>

definition ratio_within :: "rat \<Rightarrow> rat \<Rightarrow> error + npfloat \<Rightarrow> bool" where
  "ratio_within p eps r =
     (case r of
        Inr (Ratio x y) \<Rightarrow> \<bar>x / y - p\<bar> \<le> eps
      | Inr NaN \<Rightarrow> False
      | Inr PosInf \<Rightarrow> False
      | Inr NegInf \<Rightarrow> False
      | Inl e \<Rightarrow> False)"

text \<open>
  \<^verbatim>\<open>
    results = []
    for i in range(n):
        results.append(monty(simulate=True))
  \<close>
  \<^verbatim>\<open>range(n)\<close> is empty for \<open>n \<le> 0\<close>, so the loop runs \<open>nat n\<close> times. No bound is put
  on \<open>n\<close>: a count so large that the lists do not fit in memory is not modelled.
\<close>

fun run_trials :: "nat \<Rightarrow> rng \<Rightarrow> (error + bool list) \<times> rng" where
  "run_trials 0 g = (Inr [], g)"
| "run_trials (Suc k) g =
     (case monty True idle_console g of
        (Inl e, g') \<Rightarrow> (Inl e, g')
      | (Inr b, g') \<Rightarrow>
          (case run_trials k g' of
             (Inl e, g'') \<Rightarrow> (Inl e, g'')
           | (Inr bs, g'') \<Rightarrow> (Inr (b # bs), g'')))"

text \<open>The cell that prints \<^verbatim>\<open>np.sum(results)/float(n)\<close>.\<close>

definition trial_aggregator :: "int \<Rightarrow> rng \<Rightarrow> (error + npfloat) \<times> rng" where
  "trial_aggregator n g =
     (case run_trials (nat n) g of
        (Inl e, g') \<Rightarrow> (Inl e, g')
      | (Inr results, g') \<Rightarrow>
          (Inr (np_true_divide (of_nat (np_sum results)) (of_int n)), g'))"

text \<open>
  The never-switch cell:
  \<^verbatim>\<open>
    cardoor = choice(population, n, replace=True)
    print(np.sum(cardoor == 0) / float(n))
  \<close>
\<close>

definition never_switch :: "int \<Rightarrow> rng \<Rightarrow> (error + npfloat) \<times> rng" where
  "never_switch n g =
     (case choice_size (arange 3) n g of
        (Inl e, g') \<Rightarrow> (Inl e, g')
      | (Inr cardoor, g') \<Rightarrow>
          (case eq_mask cardoor (Scalar 0) of
             Inl e \<Rightarrow> (Inl e, g')
           | Inr m \<Rightarrow> (Inr (np_true_divide (of_nat (np_sum m)) (of_int n)), g')))"

text \<open>The doors the car is behind in the first \<open>k\<close> trials of the simulation, in order.\<close>

fun trial_cardoors :: "nat \<Rightarrow> rng \<Rightarrow> int list" where
  "trial_cardoors 0 g = []"
| "trial_cardoors (Suc k) g = cardoor_of g # trial_cardoors k (snd (monty True idle_console g))"

text \<open>
  A generator that yields the draws of a list, in order, and 0 from then on. The lists of a
  given length over \<open>[0..<6]\<close> stand for equally likely draws: the residues modulo 3 and
  modulo 2 of such a draw are uniform, so \<^verbatim>\<open>choice\<close> is uniform on three doors and on two.
\<close>

definition draws_from :: "nat list \<Rightarrow> rng" where
  "draws_from ds = foldr cons_draw ds (const_draws 0)"

text \<open>
  For the doors of the car in a run of trials: three times the number of trials that the
  always-switch player wins, less twice the number of trials.
\<close>

definition dev :: "int list \<Rightarrow> int" where
  "dev cs = 3 * int (length (filter (\<lambda>c. c \<noteq> 0) cs)) - 2 * int (length cs)"

subsection \<open>The two-children cells\<close>

text \<open>
  Genders are 0 (girl) and 1 (boy); \<open>child1\<close> and \<open>child2\<close> are the arrays of the elder and
  the younger child of each family. The first cell counts with
  \<^verbatim>\<open>
    n_b = np.sum(child1 == 0)
    n_ab = np.sum(np.all([child1 == 0, child2 == 0], axis=0))
  \<close>
  and the second with
  \<^verbatim>\<open>
    n_b = np.sum(np.any([child1 == 0, child2 == 0], axis=0))
    n_ab = np.sum(np.all([child1 == 0, child2 == 0], axis=0))
  \<close>
\<close>

definition n_b_elder :: "int list \<Rightarrow> error + nat" where
  "n_b_elder child1 =
     (case eq_mask child1 (Scalar 0) of Inl e \<Rightarrow> Inl e | Inr m \<Rightarrow> Inr (np_sum m))"

definition n_ab_elder :: "int list \<Rightarrow> int list \<Rightarrow> error + nat" where
  "n_ab_elder child1 child2 =
     (case eq_mask child1 (Scalar 0) of
        Inl e \<Rightarrow> Inl e
      | Inr m1 \<Rightarrow>
          (case eq_mask child2 (Scalar 0) of
             Inl e \<Rightarrow> Inl e
           | Inr m2 \<Rightarrow>
               (case np_all_axis0 m1 m2 of Inl e \<Rightarrow> Inl e | Inr m \<Rightarrow> Inr (np_sum m))))"

definition n_b_at_least_one :: "int list \<Rightarrow> int list \<Rightarrow> error + nat" where
  "n_b_at_least_one child1 child2 =
     (case eq_mask child1 (Scalar 0) of
        Inl e \<Rightarrow> Inl e
      | Inr m1 \<Rightarrow>
          (case eq_mask child2 (Scalar 0) of
             Inl e \<Rightarrow> Inl e
           | Inr m2 \<Rightarrow>
               (case np_any_axis0 m1 m2 of Inl e \<Rightarrow> Inl e | Inr m \<Rightarrow> Inr (np_sum m))))"

definition n_ab_at_least_one :: "int list \<Rightarrow> int list \<Rightarrow> error + nat" where
  "n_ab_at_least_one child1 child2 =
     (case eq_mask child1 (Scalar 0) of
        Inl e \<Rightarrow> Inl e
      | Inr m1 \<Rightarrow>
          (case eq_mask child2 (Scalar 0) of
             Inl e \<Rightarrow> Inl e
           | Inr m2 \<Rightarrow>
               (case np_all_axis0 m1 m2 of Inl e \<Rightarrow> Inl e | Inr m \<Rightarrow> Inr (np_sum m))))"

section \<open>Auxiliary facts\<close>

subsection \<open>Masks and selections\<close>

lemma arange3: "arange 3 = [0, 1, 2]"
  by (simp add: arange_def upt_rec numeral_3_eq_3)

lemma upt3: "[0..<3] = [0, 1, 2]"
  by (simp add: upt_rec numeral_3_eq_3)

lemma in_doors: "d \<in> set (arange 3) \<longleftrightarrow> d = 0 \<or> d = 1 \<or> d = 2"
  by (auto simp: arange3)

lemma select_map: "map fst (filter snd (zip a (map P a))) = filter P a"
  by (induction a) auto

lemma mask_select_map: "mask_select a (map P a) = Inr (filter P a)"
  by (simp add: mask_select_def select_map)

lemma ne_mask_Scalar: "ne_mask a (Scalar s) = Inr (map (\<lambda>d. d \<noteq> s) a)"
  by (simp add: ne_mask_def cmp_mask_def)

lemma ne_mask_Arr1: "ne_mask a (Arr [x]) = Inr (map (\<lambda>d. d \<noteq> x) a)"
  by (simp add: ne_mask_def cmp_mask_def)

lemma eq_mask_Scalar: "eq_mask a (Scalar s) = Inr (map (\<lambda>d. d = s) a)"
  by (simp add: eq_mask_def cmp_mask_def)

lemma map2_and: "map2 (\<lambda>p q. p \<and> q) (map P a) (map Q a) = map (\<lambda>d. P d \<and> Q d) a"
  by (induction a) auto

lemma all_axis0_map: "np_all_axis0 (map P a) (map Q a) = Inr (map (\<lambda>d. P d \<and> Q d) a)"
  by (simp add: np_all_axis0_def map2_and)

lemma neither_SS:
  "neither a (Scalar x) (Scalar y) = Inr (Arr (filter (\<lambda>d. d \<noteq> x \<and> d \<noteq> y) a))"
  by (simp add: neither_def ne_mask_Scalar all_axis0_map mask_select_map)

lemma neither_SA:
  "neither a (Scalar x) (Arr [y]) = Inr (Arr (filter (\<lambda>d. d \<noteq> x \<and> d \<noteq> y) a))"
  by (simp add: neither_def ne_mask_Scalar ne_mask_Arr1 all_axis0_map mask_select_map)

lemma np_sum_map: "np_sum (map P xs) = length (filter P xs)"
  by (simp add: np_sum_def filter_map comp_def)

subsection \<open>The car's door and Monty's door\<close>

lemma choice_doors: "choice [0, 1, 2] g = (Inr (cardoor_of g), \<lambda>i. g (Suc i))"
  by (simp add: choice_def next_draw_def cardoor_of_def arange3)

lemma cardoor_of_cases: "cardoor_of g = 0 \<or> cardoor_of g = 1 \<or> cardoor_of g = 2"
proof -
  have "g 0 mod 3 < 3" by simp
  then have "g 0 mod 3 = 0 \<or> g 0 mod 3 = 1 \<or> g 0 mod 3 = 2" by arith
  then show ?thesis by (auto simp: cardoor_of_def arange3)
qed

lemma cardoor_cons: "cardoor_of (cons_draw r h) = [0, 1, 2] ! (r mod 3)"
  by (simp add: cardoor_of_def cons_draw_def arange3)

lemma cardoor_const_0: "cardoor_of (const_draws 0) = 0"
  by (simp add: cardoor_of_def const_draws_def arange3)

lemma cardoor_const_1: "cardoor_of (const_draws (Suc 0)) = 1"
  by (simp add: cardoor_of_def const_draws_def arange3)

lemma cardoor_const_2: "cardoor_of (const_draws 2) = 2"
  by (simp add: cardoor_of_def const_draws_def arange3)

lemma pick_montydoor_ne:
  "chosen \<noteq> cardoor \<Longrightarrow>
   pick_montydoor doors chosen cardoor g =
     (Inr (Arr (filter (\<lambda>d. d \<noteq> chosen \<and> d \<noteq> cardoor) doors)), g)"
  by (simp add: pick_montydoor_def neither_SS)

lemma pick_montydoor_eq:
  "filter (\<lambda>d. d \<noteq> c) doors \<noteq> [] \<Longrightarrow>
   pick_montydoor doors c c g =
     (Inr (Scalar (filter (\<lambda>d. d \<noteq> c) doors ! (g 0 mod length (filter (\<lambda>d. d \<noteq> c) doors)))),
      \<lambda>i. g (Suc i))"
  by (simp add: pick_montydoor_def ne_mask_Scalar mask_select_map choice_def next_draw_def)

lemma nth_pair: "[a, b] ! (r mod 2) = (if even r then a else b)"
proof (cases "even r")
  case True
  then have "r mod 2 = 0" by presburger
  with True show ?thesis by simp
next
  case False
  then have "r mod 2 = 1" by presburger
  with False show ?thesis by simp
qed

lemma pick_montydoor_pair:
  assumes "filter (\<lambda>d. d \<noteq> c) doors = [a, b]"
  shows "pick_montydoor doors c c g =
     (Inr (Scalar (if even (g 0) then a else b)), \<lambda>i. g (Suc i))"
proof -
  have "pick_montydoor doors c c g = (Inr (Scalar ([a, b] ! (g 0 mod 2))), \<lambda>i. g (Suc i))"
    using assms by (simp add: pick_montydoor_eq numeral_2_eq_2)
  then show ?thesis by (simp only: nth_pair)
qed

lemma pick_same_0:
  "pick_montydoor [0, 1, 2] 0 0 g = (Inr (Scalar (if even (g 0) then 1 else 2)), \<lambda>i. g (Suc i))"
  by (rule pick_montydoor_pair) simp

lemma pick_same_1:
  "pick_montydoor [0, 1, 2] 1 1 g = (Inr (Scalar (if even (g 0) then 0 else 2)), \<lambda>i. g (Suc i))"
  by (rule pick_montydoor_pair) simp

lemma pick_same_2:
  "pick_montydoor [0, 1, 2] 2 2 g = (Inr (Scalar (if even (g 0) then 0 else 1)), \<lambda>i. g (Suc i))"
  by (rule pick_montydoor_pair) simp

lemmas pick_same = pick_same_0 pick_same_1 pick_same_2

lemma pick_total: "\<exists>md g'. pick_montydoor [0, 1, 2] d (cardoor_of g) g1 = (Inr md, g')"
proof (cases "d = cardoor_of g")
  case True
  then show ?thesis using cardoor_of_cases [of g] by (auto simp: pick_same)
next
  case False
  then show ?thesis by (simp add: pick_montydoor_ne)
qed

lemma pick_fst_cong:
  "g 0 = h 0 \<Longrightarrow> fst (pick_montydoor doors c cd g) = fst (pick_montydoor doors c cd h)"
  by (simp add: pick_montydoor_def choice_def next_draw_def split: sum.splits)

lemma pick_snd:
  "snd (pick_montydoor doors c cd g) = g \<or> snd (pick_montydoor doors c cd g) = (\<lambda>i. g (Suc i))"
  by (simp add: pick_montydoor_def choice_def next_draw_def split: sum.splits)

subsection \<open>One trial\<close>

lemma monty_sim:
  "monty True con g =
     (Inr (cardoor_of g \<noteq> 0),
      if cardoor_of g = 0 then (\<lambda>i. g (Suc (Suc i))) else (\<lambda>i. g (Suc i)))"
proof -
  consider "cardoor_of g = 0" | "cardoor_of g = 1" | "cardoor_of g = 2"
    using cardoor_of_cases by blast
  then show ?thesis
  proof cases
    case 1
    then show ?thesis
      by (simp add: monty_def choice_doors Let_def arange3 decide_def pick_same
          switch_door_def neither_SS truth_eq_def)
  next
    case 2
    then show ?thesis
      by (simp add: monty_def choice_doors Let_def arange3 pick_montydoor_ne decide_def
          switch_door_def neither_SA truth_eq_def)
  next
    case 3
    then show ?thesis
      by (simp add: monty_def choice_doors Let_def arange3 pick_montydoor_ne decide_def
          switch_door_def neither_SA truth_eq_def)
  qed
qed

lemma monty_empty_reply:
  "fst (monty False \<lparr>door_entry = Inr d, reply = []\<rparr> g) = Inl IndexError"
proof -
  obtain md g' where "pick_montydoor [0, 1, 2] d (cardoor_of g) (\<lambda>i. g (Suc i)) = (Inr md, g')"
    using pick_total by blast
  then show ?thesis
    by (simp add: monty_def choice_doors Let_def arange3 decide_def)
qed

lemma monty_interactive:
  assumes "d \<in> set (arange 3)"
  shows "monty False \<lparr>door_entry = Inr d, reply = c # cs\<rparr> g =
     (Inr (if c = CHR ''y'' then d \<noteq> cardoor_of g else d = cardoor_of g),
      if d = cardoor_of g then (\<lambda>i. g (Suc (Suc i))) else (\<lambda>i. g (Suc i)))"
proof -
  have d: "d = 0 \<or> d = 1 \<or> d = 2" using assms by (simp add: in_doors)
  show ?thesis
  proof (cases "d = cardoor_of g")
    case True
    with d show ?thesis
      by (auto simp: monty_def choice_doors Let_def arange3 decide_def pick_same
          switch_door_def neither_SS truth_eq_def)
  next
    case False
    with d cardoor_of_cases [of g] show ?thesis
      by (auto simp: monty_def choice_doors Let_def arange3 decide_def pick_montydoor_ne
          switch_door_def neither_SA truth_eq_def)
  qed
qed

lemma monty_bad_entry:
  "monty False \<lparr>door_entry = Inl e, reply = rep\<rparr> g = (Inl e, \<lambda>i. g (Suc i))"
  by (simp add: monty_def choice_doors Let_def arange3)

lemma monty_outside:
  assumes "d \<notin> set (arange 3)" and "c \<noteq> CHR ''y''"
  shows "monty False \<lparr>door_entry = Inr d, reply = c # cs\<rparr> g = (Inr False, \<lambda>i. g (Suc i))"
proof -
  have "d \<noteq> cardoor_of g"
    using assms(1) cardoor_of_cases [of g] by (auto simp: in_doors)
  then show ?thesis using assms(2)
    by (simp add: monty_def choice_doors Let_def arange3 decide_def pick_montydoor_ne truth_eq_def)
qed

lemma monty_fst_cong:
  assumes "g 0 = h 0" and "g 1 = h 1"
  shows "fst (monty simulate con g) = fst (monty simulate con h)"
proof -
  have c: "cardoor_of g = cardoor_of h" using assms(1) by (simp add: cardoor_of_def)
  have p: "fst (pick_montydoor [0, 1, 2] d (cardoor_of h) (\<lambda>i. g (Suc i))) =
           fst (pick_montydoor [0, 1, 2] d (cardoor_of h) (\<lambda>i. h (Suc i)))" for d
    using assms(2) by (intro pick_fst_cong) simp
  show ?thesis
  proof (cases "if \<not> simulate then door_entry con else Inr 0")
    case (Inl e)
    then show ?thesis by (simp add: monty_def choice_doors Let_def arange3 c)
  next
    case (Inr d)
    obtain r1 g2 where r1: "pick_montydoor [0, 1, 2] d (cardoor_of h) (\<lambda>i. g (Suc i)) = (r1, g2)"
      by (cases "pick_montydoor [0, 1, 2] d (cardoor_of h) (\<lambda>i. g (Suc i))")
    obtain r2 h2 where r2: "pick_montydoor [0, 1, 2] d (cardoor_of h) (\<lambda>i. h (Suc i)) = (r2, h2)"
      by (cases "pick_montydoor [0, 1, 2] d (cardoor_of h) (\<lambda>i. h (Suc i))")
    from p [of d] r1 r2 have "r1 = r2" by simp
    with Inr r1 r2 show ?thesis
      by (simp add: monty_def choice_doors Let_def arange3 c split: sum.splits)
  qed
qed

lemma monty_snd:
  "snd (monty simulate con g) = (\<lambda>i. g (Suc i)) \<or>
   snd (monty simulate con g) = (\<lambda>i. g (Suc (Suc i)))"
proof (cases "if \<not> simulate then door_entry con else Inr 0")
  case (Inl e)
  then show ?thesis by (simp add: monty_def choice_doors Let_def arange3)
next
  case (Inr d)
  obtain r1 g2 where r1: "pick_montydoor [0, 1, 2] d (cardoor_of g) (\<lambda>i. g (Suc i)) = (r1, g2)"
    by (cases "pick_montydoor [0, 1, 2] d (cardoor_of g) (\<lambda>i. g (Suc i))")
  with pick_snd [of "[0, 1, 2]" d "cardoor_of g" "\<lambda>i. g (Suc i)"]
  have "g2 = (\<lambda>i. g (Suc i)) \<or> g2 = (\<lambda>i. g (Suc (Suc i)))" by simp
  with Inr r1 show ?thesis
    by (auto simp: monty_def choice_doors Let_def arange3 split: sum.splits)
qed

subsection \<open>Many trials\<close>

lemma run_trials_results:
  "fst (run_trials k g) = Inr (map (\<lambda>c. c \<noteq> 0) (trial_cardoors k g))"
proof (induction k arbitrary: g)
  case 0
  show ?case by simp
next
  case (Suc k)
  obtain g1 where m: "monty True idle_console g = (Inr (cardoor_of g \<noteq> 0), g1)"
    by (simp add: monty_sim)
  obtain r g2 where r: "run_trials k g1 = (r, g2)"
    by (cases "run_trials k g1")
  with Suc.IH [of g1] have "r = Inr (map (\<lambda>c. c \<noteq> 0) (trial_cardoors k g1))"
    by simp
  with m r show ?case by simp
qed

lemma trial_aggregator_rate:
  "fst (trial_aggregator n g) =
     Inr (np_true_divide
            (of_nat (length (filter (\<lambda>c. c \<noteq> 0) (trial_cardoors (nat n) g)))) (of_int n))"
proof -
  obtain r g' where r: "run_trials (nat n) g = (r, g')"
    by (cases "run_trials (nat n) g")
  with run_trials_results [of "nat n" g]
  have "r = Inr (map (\<lambda>c. c \<noteq> 0) (trial_cardoors (nat n) g))" by simp
  with r show ?thesis by (simp add: trial_aggregator_def np_sum_map)
qed

subsection \<open>Counting girls\<close>

lemma sum_both_girls:
  "length xs = length ys \<Longrightarrow>
   np_sum (map2 (\<lambda>p q. p \<and> q) (map (\<lambda>d. d = (0::int)) xs) (map (\<lambda>d. d = (0::int)) ys)) =
   length (filter (\<lambda>(a, b). a = 0 \<and> b = 0) (zip xs ys))"
  by (induction xs ys rule: list_induct2) (simp_all add: np_sum_def)

subsection \<open>Doors outside the three\<close>

lemma others_outside:
  "d \<notin> set (arange 3) \<Longrightarrow>
   filter (\<lambda>x. x \<noteq> d \<and> x \<noteq> c) (arange 3) = filter (\<lambda>x. x \<noteq> c) (arange 3)"
  by (intro filter_cong) auto

lemma pick_outside:
  assumes "d \<notin> set (arange 3)"
  shows "pick_montydoor (arange 3) d (cardoor_of g) g1 =
     (Inr (Arr (filter (\<lambda>x. x \<noteq> cardoor_of g) (arange 3))), g1)"
proof -
  have "d \<noteq> cardoor_of g"
    using assms cardoor_of_cases [of g] by (auto simp: in_doors)
  then show ?thesis by (simp add: pick_montydoor_ne others_outside [OF assms])
qed

lemma two_others:
  "\<exists>a b. filter (\<lambda>x. x \<noteq> cardoor_of g) (arange 3) = [a, b] \<and> a \<noteq> b"
  using cardoor_of_cases [of g] by (auto simp: arange3)

lemma switch_two_doors: "switch_door [0, 1, 2] (Scalar d) (Arr [a, b]) = Inl ValueError"
  by (simp add: switch_door_def neither_def ne_mask_Scalar ne_mask_def cmp_mask_def)

lemma monty_outside_yes:
  assumes "d \<notin> set (arange 3)"
  shows "monty False \<lparr>door_entry = Inr d, reply = CHR ''y'' # cs\<rparr> g = (Inl ValueError, \<lambda>i. g (Suc i))"
proof -
  obtain a b where ab: "filter (\<lambda>x. x \<noteq> cardoor_of g) (arange 3) = [a, b]"
    using two_others by blast
  have "pick_montydoor [0, 1, 2] d (cardoor_of g) (\<lambda>i. g (Suc i)) = (Inr (Arr [a, b]), \<lambda>i. g (Suc i))"
    using pick_outside [OF assms, of g "\<lambda>i. g (Suc i)"] ab by (simp add: arange3)
  then show ?thesis
    by (simp add: monty_def choice_doors Let_def arange3 decide_def switch_two_doors)
qed

lemma monty_no_invalid:
  assumes "door_entry con \<noteq> Inl InvalidInput"
  shows "fst (monty simulate con g) \<noteq> Inl InvalidInput"
proof (cases simulate)
  case True
  then show ?thesis by (simp add: monty_sim)
next
  case False
  obtain de rep where con: "con = \<lparr>door_entry = de, reply = rep\<rparr>"
    by (cases con) simp
  show ?thesis
  proof (cases de)
    case (Inl e)
    with assms con False show ?thesis by (simp add: monty_bad_entry)
  next
    case (Inr d)
    show ?thesis
    proof (cases rep)
      case Nil
      with con Inr False show ?thesis by (simp add: monty_empty_reply)
    next
      case (Cons c cs)
      show ?thesis
      proof (cases "d \<in> set (arange 3)")
        case True
        with con Inr Cons False show ?thesis by (simp add: monty_interactive)
      next
        case out: False
        show ?thesis
        proof (cases "c = CHR ''y''")
          case True
          with con Inr Cons False out show ?thesis by (simp add: monty_outside_yes)
        next
          case no: False
          with con Inr Cons False out show ?thesis by (simp add: monty_outside)
        qed
      qed
    qed
  qed
qed


subsection \<open>Counting over equally likely draws\<close>

lemma draws_from_Cons: "draws_from (d # ds) = cons_draw d (draws_from ds)"
  by (simp add: draws_from_def)

lemma tail_cons_draw: "(\<lambda>i. cons_draw d g (Suc i)) = g"
  by (simp add: cons_draw_def)

lemma upt6: "[0..<6] = [0, 1, 2, 3, 4, 5]"
  by (simp add: upt_rec)

lemma sum_list_const0: "sum_list (map (\<lambda>y. 0::int) xs) = 0"
  by (induction xs) simp_all

lemma sum_concat_cons:
  "sum_list (map f (concat (map (\<lambda>ys. map (\<lambda>y. y # ys) xs) yss))) =
   sum_list (map (\<lambda>y. sum_list (map (\<lambda>ys. f (y # ys)) yss)) xs)" for f :: "'a list \<Rightarrow> int"
proof (induction yss)
  case Nil
  show ?case by (simp add: sum_list_const0)
next
  case (Cons ys yss)
  have "sum_list (map f (map (\<lambda>y. y # ys) xs)) = sum_list (map (\<lambda>y. f (y # ys)) xs)"
    by (simp add: comp_def)
  with Cons show ?case by (simp add: sum_list_addf comp_def)
qed

lemma sum_n_lists_Suc:
  "sum_list (map f (List.n_lists (Suc n) xs)) =
   sum_list (map (\<lambda>y. sum_list (map (\<lambda>ys. f (y # ys)) (List.n_lists n xs))) xs)"
  for f :: "'a list \<Rightarrow> int"
  by (simp add: sum_concat_cons)

lemma count_as_sum: "int (length (filter P xs)) = sum_list (map (\<lambda>x. if P x then 1 else 0) xs)"
  by (induction xs) simp_all

lemma count_n_lists_Suc:
  "int (length (filter P (List.n_lists (Suc n) xs))) =
   sum_list (map (\<lambda>y. int (length (filter (\<lambda>ys. P (y # ys)) (List.n_lists n xs)))) xs)"
  by (simp only: count_as_sum sum_n_lists_Suc)

lemma markov_list:
  fixes f :: "'a \<Rightarrow> int"
  assumes "\<forall>x \<in> set xs. 0 \<le> f x" and "0 \<le> t"
  shows "t * int (length (filter (\<lambda>x. t < f x) xs)) \<le> sum_list (map f xs)"
  using assms
proof (induction xs)
  case Nil
  show ?case by simp
next
  case (Cons x xs)
  then have ih: "t * int (length (filter (\<lambda>x. t < f x) xs)) \<le> sum_list (map f xs)"
    and fx: "0 \<le> f x" by simp_all
  show ?case
  proof (cases "t < f x")
    case True
    with ih show ?thesis by (simp add: algebra_simps)
  next
    case False
    with ih fx show ?thesis by simp
  qed
qed

lemma dev_Cons: "dev (c # cs) = (if c = 0 then dev cs - 2 else dev cs + 1)"
  by (simp add: dev_def)

lemma second_moment:
  "sum_list (map (\<lambda>cs. (dev cs)\<^sup>2) (List.n_lists n [0, 1, 2])) = 2 * int n * 3 ^ n"
proof (induction n)
  case 0
  show ?case by (simp add: dev_def)
next
  case (Suc n)
  have "sum_list (map (\<lambda>cs. (dev cs)\<^sup>2) (List.n_lists (Suc n) [0, 1, 2])) =
      sum_list (map (\<lambda>cs. (dev cs - 2)\<^sup>2 + ((dev cs + 1)\<^sup>2 + (dev cs + 1)\<^sup>2)) (List.n_lists n [0, 1, 2]))"
    by (simp only: sum_n_lists_Suc) (simp add: dev_Cons sum_list_addf sum_list_const_mult)
  also have "(\<lambda>cs. (dev cs - 2)\<^sup>2 + ((dev cs + 1)\<^sup>2 + (dev cs + 1)\<^sup>2)) = (\<lambda>cs. 3 * (dev cs)\<^sup>2 + 6)"
    by (rule ext) (simp add: power2_eq_square algebra_simps)
  also have "sum_list (map (\<lambda>cs. 3 * (dev cs)\<^sup>2 + 6) (List.n_lists n [0, 1, 2])) =
      3 * sum_list (map (\<lambda>cs. (dev cs)\<^sup>2) (List.n_lists n [0, 1, 2])) + 6 * int (length (List.n_lists n [0, 1, 2::int]))"
    by (simp add: sum_list_addf sum_list_const_mult sum_list_triv algebra_simps)
  finally show ?case using Suc by (simp add: length_n_lists algebra_simps)
qed

lemma tail2_cons_draw: "(\<lambda>i. cons_draw d g (Suc (Suc i))) = (\<lambda>i. g (Suc i))"
  by (simp add: cons_draw_def)

lemma trial_cardoors_cons:
  "trial_cardoors (Suc n) (cons_draw d g) =
     (if [0, 1, 2] ! (d mod 3) = (0::int) then 0 # trial_cardoors n (\<lambda>i. g (Suc i))
      else ([0, 1, 2] ! (d mod 3)) # trial_cardoors n g)"
  by (simp add: monty_sim cardoor_cons tail_cons_draw tail2_cons_draw)

lemma tail_draws_from: "(\<lambda>i. draws_from (d # ds) (Suc i)) = draws_from ds"
  by (simp add: draws_from_Cons tail_cons_draw)

lemma count6:
  "int (length (filter P (List.n_lists (Suc L) [0..<6]))) =
     int (length (filter (\<lambda>ys. P (0 # ys)) (List.n_lists L [0..<6]))) +
     int (length (filter (\<lambda>ys. P (1 # ys)) (List.n_lists L [0..<6]))) +
     int (length (filter (\<lambda>ys. P (2 # ys)) (List.n_lists L [0..<6]))) +
     int (length (filter (\<lambda>ys. P (3 # ys)) (List.n_lists L [0..<6]))) +
     int (length (filter (\<lambda>ys. P (4 # ys)) (List.n_lists L [0..<6]))) +
     int (length (filter (\<lambda>ys. P (5 # ys)) (List.n_lists L [0..<6])))"
  by (simp only: count_n_lists_Suc) (simp add: upt6)

lemma count3:
  "int (length (filter P (List.n_lists (Suc n) [0, 1, 2::int]))) =
     int (length (filter (\<lambda>ys. P (0 # ys)) (List.n_lists n [0, 1, 2]))) +
     int (length (filter (\<lambda>ys. P (1 # ys)) (List.n_lists n [0, 1, 2]))) +
     int (length (filter (\<lambda>ys. P (2 # ys)) (List.n_lists n [0, 1, 2])))"
  by (simp only: count_n_lists_Suc) simp

lemma uniform_trials:
  "2 * n \<le> L \<Longrightarrow>
   3 ^ n * int (length (filter (\<lambda>ds. Q (trial_cardoors n (draws_from ds))) (List.n_lists L [0..<6]))) =
   6 ^ L * int (length (filter Q (List.n_lists n [0, 1, 2])))"
proof (induction n arbitrary: L Q)
  case 0
  show ?case by (simp add: length_n_lists)
next
  case (Suc n)
  then obtain L2 where L: "L = Suc (Suc L2)" and L2: "2 * n \<le> L2"
    by (cases L; cases "L - 1") auto
  let ?A = "\<lambda>c M. int (length (filter (\<lambda>ds. Q (c # trial_cardoors n (draws_from ds))) (List.n_lists M [0..<6])))"
  let ?C = "\<lambda>c. int (length (filter (\<lambda>cs. Q (c # cs)) (List.n_lists n [0, 1, 2])))"
  have ih1: "3 ^ n * ?A c (Suc L2) = 6 ^ Suc L2 * ?C c" for c
    using Suc.IH [of "Suc L2" "\<lambda>cs. Q (c # cs)"] L2 by simp
  have ih2: "3 ^ n * ?A c L2 = 6 ^ L2 * ?C c" for c
    using Suc.IH [of L2 "\<lambda>cs. Q (c # cs)"] L2 by simp
  have zero: "int (length (filter (\<lambda>ds. Q (0 # trial_cardoors n (\<lambda>i. draws_from ds (Suc i))))
        (List.n_lists (Suc L2) [0..<6]))) = 6 * ?A 0 L2"
    by (simp only: count6 tail_draws_from)
  have "int (length (filter (\<lambda>ds. Q (trial_cardoors (Suc n) (draws_from ds))) (List.n_lists L [0..<6]))) =
      2 * (6 * ?A 0 L2) + 2 * ?A 1 (Suc L2) + 2 * ?A 2 (Suc L2)"
    unfolding L by (simp only: count6 [of _ "Suc L2"] draws_from_Cons trial_cardoors_cons) (simp add: zero del: List.n_lists.simps)
  then have "3 ^ Suc n * int (length (filter (\<lambda>ds. Q (trial_cardoors (Suc n) (draws_from ds))) (List.n_lists L [0..<6]))) =
      3 * (2 * (6 * (3 ^ n * ?A 0 L2)) + 2 * (3 ^ n * ?A 1 (Suc L2)) + 2 * (3 ^ n * ?A 2 (Suc L2)))"
    by (simp add: algebra_simps)
  also have "\<dots> = 6 ^ L * (?C 0 + ?C 1 + ?C 2)"
    by (simp only: ih1 ih2) (simp add: L algebra_simps)
  also have "?C 0 + ?C 1 + ?C 2 = int (length (filter Q (List.n_lists (Suc n) [0, 1, 2])))"
    by (simp only: count3)
  finally show ?case .
qed

lemma choices_cons:
  "fst (choices [0, 1, 2] (Suc k) (cons_draw d g)) =
     (case fst (choices [0, 1, 2] k g) of
        Inl e \<Rightarrow> Inl e
      | Inr xs \<Rightarrow> Inr (([0, 1, 2] ! (d mod 3)) # xs))"
proof -
  obtain r g' where r: "choices [0, 1, 2] k g = (r, g')"
    by (cases "choices [0, 1, 2] k g")
  then show ?thesis
    by (cases r) (simp_all add: choice_doors cardoor_cons tail_cons_draw)
qed

lemma choices_cons_vals:
  "fst (choices [0, 1, 2] (Suc k) (cons_draw 0 g)) =
     (case fst (choices [0, 1, 2] k g) of Inl e \<Rightarrow> Inl e | Inr xs \<Rightarrow> Inr (0 # xs))"
  "fst (choices [0, 1, 2] (Suc k) (cons_draw 1 g)) =
     (case fst (choices [0, 1, 2] k g) of Inl e \<Rightarrow> Inl e | Inr xs \<Rightarrow> Inr (1 # xs))"
  "fst (choices [0, 1, 2] (Suc k) (cons_draw 2 g)) =
     (case fst (choices [0, 1, 2] k g) of Inl e \<Rightarrow> Inl e | Inr xs \<Rightarrow> Inr (2 # xs))"
  "fst (choices [0, 1, 2] (Suc k) (cons_draw 3 g)) =
     (case fst (choices [0, 1, 2] k g) of Inl e \<Rightarrow> Inl e | Inr xs \<Rightarrow> Inr (0 # xs))"
  "fst (choices [0, 1, 2] (Suc k) (cons_draw 4 g)) =
     (case fst (choices [0, 1, 2] k g) of Inl e \<Rightarrow> Inl e | Inr xs \<Rightarrow> Inr (1 # xs))"
  "fst (choices [0, 1, 2] (Suc k) (cons_draw 5 g)) =
     (case fst (choices [0, 1, 2] k g) of Inl e \<Rightarrow> Inl e | Inr xs \<Rightarrow> Inr (2 # xs))"
  by (simp_all only: choices_cons) (simp_all split: sum.splits)

lemma uniform_choices:
  "n \<le> L \<Longrightarrow>
   3 ^ n * int (length (filter (\<lambda>ds. Q (fst (choices [0, 1, 2] n (draws_from ds)))) (List.n_lists L [0..<6]))) =
   6 ^ L * int (length (filter (\<lambda>cs. Q (Inr cs)) (List.n_lists n [0, 1, 2])))"
proof (induction n arbitrary: L Q)
  case 0
  show ?case by (simp add: length_n_lists)
next
  case (Suc n)
  then obtain L1 where L: "L = Suc L1" and L1: "n \<le> L1"
    by (cases L) auto
  let ?Q = "\<lambda>c r. Q (case r of Inl e \<Rightarrow> Inl e | Inr xs \<Rightarrow> Inr (c # xs))"
  let ?A = "\<lambda>c. int (length (filter (\<lambda>ds. ?Q c (fst (choices [0, 1, 2] n (draws_from ds)))) (List.n_lists L1 [0..<6])))"
  let ?C = "\<lambda>c. int (length (filter (\<lambda>cs. Q (Inr (c # cs))) (List.n_lists n [0, 1, 2])))"
  have ih: "3 ^ n * ?A c = 6 ^ L1 * ?C c" for c
    using Suc.IH [of L1 "?Q c"] L1 by simp
  have "int (length (filter (\<lambda>ds. Q (fst (choices [0, 1, 2] (Suc n) (draws_from ds)))) (List.n_lists L [0..<6]))) =
      2 * ?A 0 + 2 * ?A 1 + 2 * ?A 2"
    unfolding L by (simp only: count6 [of _ L1] draws_from_Cons choices_cons_vals)
  then have "3 ^ Suc n * int (length (filter (\<lambda>ds. Q (fst (choices [0, 1, 2] (Suc n) (draws_from ds)))) (List.n_lists L [0..<6]))) =
      3 * (2 * (3 ^ n * ?A 0) + 2 * (3 ^ n * ?A 1) + 2 * (3 ^ n * ?A 2))"
    by (simp add: algebra_simps)
  also have "\<dots> = 6 ^ L * (?C 0 + ?C 1 + ?C 2)"
    by (simp only: ih) (simp add: L algebra_simps)
  also have "?C 0 + ?C 1 + ?C 2 = int (length (filter (\<lambda>cs. Q (Inr cs)) (List.n_lists (Suc n) [0, 1, 2])))"
    by (simp only: count3)
  finally show ?case .
qed

lemma bad_sequences:
  assumes "0 < n"
  shows "9 * int n * int (length (filter (\<lambda>cs. 3 * int n < 20 * \<bar>dev cs\<bar>) (List.n_lists n [0, 1, 2]))) \<le> 800 * 3 ^ n"
proof -
  let ?f = "\<lambda>cs. 400 * (dev cs)\<^sup>2"
  let ?t = "9 * (int n)\<^sup>2"
  have eq: "(3 * int n < 20 * \<bar>dev cs\<bar>) = (?t < ?f cs)" for cs
  proof -
    have "(20 * \<bar>dev cs\<bar> \<le> 3 * int n) = ((20 * \<bar>dev cs\<bar>)\<^sup>2 \<le> (3 * int n)\<^sup>2)"
      using abs_le_square_iff [of "20 * \<bar>dev cs\<bar>" "3 * int n"] by simp
    then have "(3 * int n < 20 * \<bar>dev cs\<bar>) = ((3 * int n)\<^sup>2 < (20 * \<bar>dev cs\<bar>)\<^sup>2)"
      by linarith
    then show ?thesis by (simp add: power_mult_distrib)
  qed
  have "?t * int (length (filter (\<lambda>cs. ?t < ?f cs) (List.n_lists n [0, 1, 2]))) \<le>
      sum_list (map ?f (List.n_lists n [0, 1, 2]))"
    by (rule markov_list) simp_all
  also have "sum_list (map ?f (List.n_lists n [0, 1, 2])) = 400 * (2 * int n * 3 ^ n)"
    by (simp add: sum_list_const_mult second_moment)
  finally have "int n * (9 * int n * int (length (filter (\<lambda>cs. 3 * int n < 20 * \<bar>dev cs\<bar>) (List.n_lists n [0, 1, 2])))) \<le> int n * (800 * 3 ^ n)"
    by (simp only: eq) (simp add: power2_eq_square algebra_simps)
  with assms show ?thesis by (simp only: mult_le_cancel_left_pos of_nat_0_less_iff)
qed

lemma tol_two_thirds:
  assumes "0 < n"
  shows "(\<bar>of_nat w / of_nat n - 2 / 3\<bar> \<le> (1 / 20 :: rat)) =
         (20 * \<bar>3 * int w - 2 * int n\<bar> \<le> 3 * int n)"
proof -
  have n: "(0::rat) < of_nat n" using assms by simp
  have "of_nat w / of_nat n - 2 / 3 = (of_int (3 * int w - 2 * int n) :: rat) / (3 * of_nat n)"
    using n by (simp add: field_simps)
  then have "\<bar>of_nat w / of_nat n - 2 / 3 :: rat\<bar> = of_int \<bar>3 * int w - 2 * int n\<bar> / (3 * of_nat n)"
    using n by (simp add: abs_mult)
  then have "(\<bar>of_nat w / of_nat n - 2 / 3\<bar> \<le> (1 / 20 :: rat)) =
      ((of_int (20 * \<bar>3 * int w - 2 * int n\<bar>) :: rat) \<le> of_int (3 * int n))"
    using n by (simp add: field_simps)
  then show ?thesis by (simp only: of_int_le_iff)
qed

lemma tol_one_third:
  assumes "0 < n"
  shows "(\<bar>of_nat z / of_nat n - 1 / 3\<bar> \<le> (1 / 20 :: rat)) =
         (20 * \<bar>int n - 3 * int z\<bar> \<le> 3 * int n)"
proof -
  have n: "(0::rat) < of_nat n" using assms by simp
  have "of_nat z / of_nat n - 1 / 3 = (of_int (3 * int z - int n) :: rat) / (3 * of_nat n)"
    using n by (simp add: field_simps)
  then have "\<bar>of_nat z / of_nat n - 1 / 3 :: rat\<bar> = of_int \<bar>3 * int z - int n\<bar> / (3 * of_nat n)"
    using n by (simp add: abs_mult)
  then have "(\<bar>of_nat z / of_nat n - 1 / 3\<bar> \<le> (1 / 20 :: rat)) =
      ((of_int (20 * \<bar>3 * int z - int n\<bar>) :: rat) \<le> of_int (3 * int n))"
    using n by (simp add: field_simps)
  then have "(\<bar>of_nat z / of_nat n - 1 / 3\<bar> \<le> (1 / 20 :: rat)) =
      (20 * \<bar>3 * int z - int n\<bar> \<le> 3 * int n)"
    by (simp only: of_int_le_iff)
  then show ?thesis by (simp add: abs_minus_commute)
qed

lemma dev_zeros: "dev cs = int (length cs) - 3 * int (length (filter (\<lambda>c. c = 0) cs))"
proof -
  have "length (filter (\<lambda>c. c = 0) cs) + length (filter (\<lambda>c. c \<noteq> 0) cs) = length cs"
    using sum_length_filter_compl [of "\<lambda>c. c = 0" cs] by simp
  then have "int (length (filter (\<lambda>c. c \<noteq> 0) cs)) = int (length cs) - int (length (filter (\<lambda>c. c = 0) cs))"
    by linarith
  then show ?thesis by (simp add: dev_def)
qed

lemma switch_ratio:
  assumes "0 < n" and "length cs = n"
  shows "(\<not> ratio_within (2 / 3) (1 / 20)
            (Inr (np_true_divide (of_nat (length (filter (\<lambda>c. c \<noteq> 0) cs))) (of_int (int n))))) =
         (3 * int n < 20 * \<bar>dev cs\<bar>)"
proof -
  let ?w = "length (filter (\<lambda>c. c \<noteq> 0) cs)"
  have "ratio_within (2 / 3) (1 / 20) (Inr (np_true_divide (of_nat ?w) (of_int (int n)))) =
      (\<bar>of_nat ?w / of_nat n - 2 / 3\<bar> \<le> (1 / 20 :: rat))"
    using assms(1) by (simp add: ratio_within_def np_true_divide_def)
  also have "\<dots> = (20 * \<bar>3 * int ?w - 2 * int n\<bar> \<le> 3 * int n)"
    by (rule tol_two_thirds [OF assms(1)])
  also have "\<dots> = (20 * \<bar>dev cs\<bar> \<le> 3 * int n)"
    using assms(2) by (simp only: dev_def)
  finally show ?thesis by (simp only: not_le)
qed

lemma never_switch_fst:
  "0 < n \<Longrightarrow> fst (never_switch (int n) g) =
     (case fst (choices [0, 1, 2] n g) of
        Inl e \<Rightarrow> Inl e
      | Inr cs \<Rightarrow> Inr (Ratio (of_nat (length (filter (\<lambda>c. c = 0) cs))) (of_nat n)))"
proof -
  assume n: "0 < n"
  obtain r g' where r: "choices [0, 1, 2] n g = (r, g')"
    by (cases "choices [0, 1, 2] n g")
  with n show ?thesis
    by (cases r)
      (simp_all add: never_switch_def choice_size_def arange3 eq_mask_Scalar np_sum_map
        np_true_divide_def)
qed

lemma never_ratio:
  assumes "0 < n" and "length cs = n"
  shows "(\<not> ratio_within (1 / 3) (1 / 20)
            (Inr (Ratio (of_nat (length (filter (\<lambda>c. c = 0) cs))) (of_nat n)))) =
         (3 * int n < 20 * \<bar>dev cs\<bar>)"
proof -
  let ?z = "length (filter (\<lambda>c. c = 0) cs)"
  have "ratio_within (1 / 3) (1 / 20) (Inr (Ratio (of_nat ?z) (of_nat n))) =
      (\<bar>of_nat ?z / of_nat n - 1 / 3\<bar> \<le> (1 / 20 :: rat))"
    by (simp add: ratio_within_def)
  also have "\<dots> = (20 * \<bar>int n - 3 * int ?z\<bar> \<le> 3 * int n)"
    by (rule tol_one_third [OF assms(1)])
  also have "\<dots> = (20 * \<bar>dev cs\<bar> \<le> 3 * int n)"
    using assms(2) by (simp only: dev_zeros)
  finally show ?thesis by (simp only: not_le)
qed

lemma spread:
  fixes B C :: int
  assumes "3 ^ n * B = 6 ^ L * C" and "9 * int n * C \<le> 800 * 3 ^ n"
  shows "9 * int n * B \<le> 800 * 6 ^ L"
proof -
  have "3 ^ n * (9 * int n * B) = 6 ^ L * (9 * int n * C)"
    using assms(1) by (simp add: algebra_simps)
  also have "\<dots> \<le> 6 ^ L * (800 * 3 ^ n)"
    using assms(2) by (intro mult_left_mono) simp_all
  finally have "(3::int) ^ n * (9 * int n * B) \<le> 3 ^ n * (800 * 6 ^ L)"
    by (simp add: algebra_simps)
  then show ?thesis by (simp only: mult_le_cancel_left_pos zero_less_power zero_less_numeral)
qed

lemma switch_concentration:
  assumes "0 < n"
  shows "9 * n * length (filter (\<lambda>ds. \<not> ratio_within (2 / 3) (1 / 20)
            (fst (trial_aggregator (int n) (draws_from ds)))) (List.n_lists (2 * n) [0..<6]))
         \<le> 800 * 6 ^ (2 * n)"
proof -
  let ?Q = "\<lambda>cs::int list. \<not> ratio_within (2 / 3) (1 / 20)
      (Inr (np_true_divide (of_nat (length (filter (\<lambda>c. c \<noteq> 0) cs))) (of_int (int n))))"
  let ?B = "int (length (filter (\<lambda>ds. ?Q (trial_cardoors n (draws_from ds))) (List.n_lists (2 * n) [0..<6])))"
  let ?C = "int (length (filter ?Q (List.n_lists n [0, 1, 2])))"
  have u: "(3::int) ^ n * ?B = 6 ^ (2 * n) * ?C"
    by (rule uniform_trials) simp
  have "filter ?Q (List.n_lists n [0, 1, 2]) =
        filter (\<lambda>cs. 3 * int n < 20 * \<bar>dev cs\<bar>) (List.n_lists n [0, 1, 2])"
    by (rule filter_cong) (simp_all only: switch_ratio [OF assms length_n_lists_elem])
  with bad_sequences [OF assms] have "9 * int n * ?C \<le> 800 * 3 ^ n" by simp
  with u have "9 * int n * ?B \<le> 800 * 6 ^ (2 * n)" by (rule spread)
  then have "int (9 * n * length (filter (\<lambda>ds. ?Q (trial_cardoors n (draws_from ds))) (List.n_lists (2 * n) [0..<6])))
      \<le> int (800 * 6 ^ (2 * n))" by simp
  then show ?thesis by (simp only: of_nat_le_iff trial_aggregator_rate nat_int)
qed

lemma never_concentration:
  assumes "0 < n"
  shows "9 * n * length (filter (\<lambda>ds. \<not> ratio_within (1 / 3) (1 / 20)
            (fst (never_switch (int n) (draws_from ds)))) (List.n_lists n [0..<6]))
         \<le> 800 * 6 ^ n"
proof -
  let ?Q = "\<lambda>r::error + int list. \<not> ratio_within (1 / 3) (1 / 20)
      (case r of Inl e \<Rightarrow> Inl e
       | Inr cs \<Rightarrow> Inr (Ratio (of_nat (length (filter (\<lambda>c. c = 0) cs))) (of_nat n)))"
  let ?B = "int (length (filter (\<lambda>ds. ?Q (fst (choices [0, 1, 2] n (draws_from ds)))) (List.n_lists n [0..<6])))"
  let ?C = "int (length (filter (\<lambda>cs. ?Q (Inr cs)) (List.n_lists n [0, 1, 2])))"
  have u: "(3::int) ^ n * ?B = 6 ^ n * ?C"
    by (rule uniform_choices) simp
  have "filter (\<lambda>cs. ?Q (Inr cs)) (List.n_lists n [0, 1, 2]) =
        filter (\<lambda>cs. 3 * int n < 20 * \<bar>dev cs\<bar>) (List.n_lists n [0, 1, 2])"
    by (rule filter_cong) (simp_all add: never_ratio [OF assms length_n_lists_elem])
  with bad_sequences [OF assms] have "9 * int n * ?C \<le> 800 * 3 ^ n" by simp
  with u have "9 * int n * ?B \<le> 800 * 6 ^ n" by (rule spread)
  then have "int (9 * n * length (filter (\<lambda>ds. ?Q (fst (choices [0, 1, 2] n (draws_from ds)))) (List.n_lists n [0..<6])))
      \<le> int (800 * 6 ^ n)" by simp
  then show ?thesis by (simp only: of_nat_le_iff never_switch_fst [OF assms])
qed

section \<open>The properties of the specification\<close>

text \<open>
  C1 as the specification has it: in every trial with \<open>chosen \<noteq> cardoor\<close> the reveal is
  the one door that is neither. The interactive mode accepts any number for the door:
  with the entry 5 and the car behind door 1 the reveal is the array of the doors 0 and 2,
  two doors that are neither the player's nor the car's.
\<close>

theorem unique_reveal_counterexample:
  "pick_montydoor (arange 3) 5 (cardoor_of (const_draws 1)) (const_draws 0) =
     (Inr (Arr [0, 2]), const_draws 0) \<and>
   (0::int) \<noteq> 5 \<and> 0 \<noteq> cardoor_of (const_draws 1) \<and>
   (2::int) \<noteq> 5 \<and> 2 \<noteq> cardoor_of (const_draws 1) \<and> (0::int) \<noteq> 2"
  by (simp add: arange3 cardoor_const_1 pick_montydoor_ne)

text \<open>
  C1, amended. Monty's door, as \<^verbatim>\<open>monty\<close> picks it for the car's door it has drawn: a
  door is revealed, and every revealed door is one of the three, is not the car's door and
  is not the player's door. When the player's door is one of the three and is not the
  car's, the reveal is the one door that is neither, and no draw is taken. When the
  player's door is the car's, the reveal is one of the two other doors, which one being
  decided by the next draw. When the player's door is not one of the three, the reveal is
  the array of the two doors other than the car's, and no draw is taken.
\<close>

theorem montydoor_reveal:
  "\<exists>md g'. pick_montydoor (arange 3) chosen (cardoor_of g) g1 = (Inr md, g') \<and>
     elems md \<noteq> [] \<and>
     (\<forall>m \<in> set (elems md). m \<in> set (arange 3) \<and> m \<noteq> cardoor_of g \<and> m \<noteq> chosen) \<and>
     (chosen \<in> set (arange 3) \<and> chosen \<noteq> cardoor_of g \<longrightarrow>
        g' = g1 \<and>
        (\<exists>m. md = Arr [m] \<and>
           (\<forall>d \<in> set (arange 3). (d \<noteq> chosen \<and> d \<noteq> cardoor_of g) = (d = m)))) \<and>
     (chosen = cardoor_of g \<longrightarrow>
        g' = (\<lambda>i. g1 (Suc i)) \<and>
        (\<exists>a b. filter (\<lambda>d. d \<noteq> chosen) (arange 3) = [a, b] \<and> a \<noteq> b \<and>
           md = Scalar (if even (g1 0) then a else b))) \<and>
     (chosen \<notin> set (arange 3) \<longrightarrow>
        g' = g1 \<and>
        (\<exists>a b. filter (\<lambda>d. d \<noteq> cardoor_of g) (arange 3) = [a, b] \<and> a \<noteq> b \<and>
           md = Arr [a, b]))"
proof (cases "chosen = cardoor_of g")
  case True
  then show ?thesis using cardoor_of_cases [of g]
    by (auto simp: arange3 pick_same)
next
  case False
  note ne = this
  show ?thesis
  proof (cases "chosen \<in> set (arange 3)")
    case True
    with ne cardoor_of_cases [of g] show ?thesis
      by (auto simp: arange3 pick_montydoor_ne)
  next
    case False
    with ne cardoor_of_cases [of g] show ?thesis
      by (auto simp: arange3 pick_montydoor_ne)
  qed
qed

theorem montydoor_reveal_witness:
  "(0::int) \<in> set (arange 3) \<and> 0 \<noteq> cardoor_of (const_draws 1) \<and>
   pick_montydoor (arange 3) 0 (cardoor_of (const_draws 1)) (const_draws 0) =
     (Inr (Arr [2]), const_draws 0) \<and>
   (2::int) = cardoor_of (const_draws 2) \<and>
   pick_montydoor (arange 3) 2 (cardoor_of (const_draws 2)) (const_draws 1) =
     (Inr (Scalar 1), \<lambda>i. const_draws 1 (Suc i)) \<and>
   (7::int) \<notin> set (arange 3) \<and>
   pick_montydoor (arange 3) 7 (cardoor_of (const_draws 2)) (const_draws 1) =
     (Inr (Arr [0, 1]), const_draws 1)"
proof -
  have h1: "(0::int) \<in> set (arange 3) \<and> 0 \<noteq> cardoor_of (const_draws 1)"
    by (simp add: arange3 cardoor_const_1)
  have h2: "(2::int) = cardoor_of (const_draws 2)"
    by (simp add: cardoor_const_2)
  have h3: "(7::int) \<notin> set (arange 3)"
    by (simp add: arange3)
  have e: "\<not> even (const_draws 1 0)"
    by (simp add: const_draws_def)
  from montydoor_reveal [of 0 "const_draws 1" "const_draws 0"] h1
  obtain m where m: "pick_montydoor (arange 3) 0 (cardoor_of (const_draws 1)) (const_draws 0) =
      (Inr (Arr [m]), const_draws 0)"
    and u: "\<forall>d \<in> set (arange 3). (d \<noteq> 0 \<and> d \<noteq> cardoor_of (const_draws 1)) = (d = m)"
    by auto
  have "(2::int) \<in> set (arange 3)" by (simp add: arange3)
  with u have m2: "m = 2" by (auto simp: cardoor_const_1)
  from montydoor_reveal [of 2 "const_draws 2" "const_draws 1"] h2
  obtain a b where ab: "filter (\<lambda>d. d \<noteq> 2) (arange 3) = [a, b]"
    and p: "pick_montydoor (arange 3) 2 (cardoor_of (const_draws 2)) (const_draws 1) =
      (Inr (Scalar (if even (const_draws 1 0) then a else b)), \<lambda>i. const_draws 1 (Suc i))"
    by auto
  from ab have b1: "b = 1" by (simp add: arange3)
  from montydoor_reveal [of 7 "const_draws 2" "const_draws 1"] h3
  obtain a' b' where ab': "filter (\<lambda>d. d \<noteq> cardoor_of (const_draws 2)) (arange 3) = [a', b']"
    and q: "pick_montydoor (arange 3) 7 (cardoor_of (const_draws 2)) (const_draws 1) =
      (Inr (Arr [a', b']), const_draws 1)"
    by auto
  from ab' have "a' = 0 \<and> b' = 1" by (simp add: arange3 cardoor_const_2)
  with m2 b1 h1 h2 h3 m p q e show ?thesis by simp
qed

text \<open>
  C2 as the specification has it: whenever the switch is taken the new door is the one
  door that is neither the former door nor the revealed one. With the accepted entry 5,
  the car behind door 1 and the reply \<open>y\<close> the switch is taken on a reveal of two doors:
  the comparison with that array raises \<^verbatim>\<open>ValueError\<close> and no door results.
\<close>

theorem switch_unique_counterexample:
  "pick_montydoor (arange 3) 5 (cardoor_of (const_draws 1)) (const_draws 0) =
     (Inr (Arr [0, 2]), const_draws 0) \<and>
   decide False ''y'' (arange 3) 5 (Arr [0, 2]) = Inl ValueError \<and>
   fst (monty False \<lparr>door_entry = Inr 5, reply = ''y''\<rparr> (const_draws 1)) = Inl ValueError"
  by (simp add: arange3 cardoor_const_1 pick_montydoor_ne decide_def switch_two_doors
      monty_outside_yes)

text \<open>
  C2, amended. The switch, taken always in the simulation and on a reply that starts with
  \<open>y\<close> in the interactive mode: for a player's door among the three and the door Monty
  has revealed, the new door is a single door of the three, different from the player's
  former door and from the revealed one, and it is the only such door. For a player's door
  that is not one of the three the switch raises \<^verbatim>\<open>ValueError\<close>, and so does the trial.
\<close>

theorem switch_invariant:
  "(chosen \<in> set (arange 3) \<longrightarrow>
     (\<exists>md g' c. pick_montydoor (arange 3) chosen (cardoor_of g) g1 = (Inr md, g') \<and>
        decide True rep (arange 3) chosen md = Inr (Arr [c]) \<and>
        decide False (CHR ''y'' # cs) (arange 3) chosen md = Inr (Arr [c]) \<and>
        c \<in> set (arange 3) \<and> c \<noteq> chosen \<and> c \<notin> set (elems md) \<and>
        (\<forall>d \<in> set (arange 3). d \<noteq> chosen \<and> d \<notin> set (elems md) \<longrightarrow> d = c))) \<and>
   (chosen \<notin> set (arange 3) \<longrightarrow>
     (\<exists>md. pick_montydoor (arange 3) chosen (cardoor_of g) g1 = (Inr md, g1) \<and>
        decide False (CHR ''y'' # cs) (arange 3) chosen md = Inl ValueError) \<and>
     fst (monty False \<lparr>door_entry = Inr chosen, reply = CHR ''y'' # cs\<rparr> g) = Inl ValueError)"
proof (intro conjI impI)
  assume dom: "chosen \<in> set (arange 3)"
  show "\<exists>md g' c. pick_montydoor (arange 3) chosen (cardoor_of g) g1 = (Inr md, g') \<and>
        decide True rep (arange 3) chosen md = Inr (Arr [c]) \<and>
        decide False (CHR ''y'' # cs) (arange 3) chosen md = Inr (Arr [c]) \<and>
        c \<in> set (arange 3) \<and> c \<noteq> chosen \<and> c \<notin> set (elems md) \<and>
        (\<forall>d \<in> set (arange 3). d \<noteq> chosen \<and> d \<notin> set (elems md) \<longrightarrow> d = c)"
  proof (cases "chosen = cardoor_of g")
    case True
    with dom show ?thesis
      by (auto simp: arange3 pick_same decide_def switch_door_def neither_SS)
  next
    case False
    with dom cardoor_of_cases [of g] show ?thesis
      by (auto simp: arange3 pick_montydoor_ne decide_def switch_door_def neither_SA)
  qed
next
  assume out: "chosen \<notin> set (arange 3)"
  obtain a b where ab: "filter (\<lambda>x. x \<noteq> cardoor_of g) (arange 3) = [a, b]"
    using two_others by blast
  with pick_outside [OF out, of g g1]
  show "\<exists>md. pick_montydoor (arange 3) chosen (cardoor_of g) g1 = (Inr md, g1) \<and>
        decide False (CHR ''y'' # cs) (arange 3) chosen md = Inl ValueError"
    by (simp add: decide_def arange3 switch_two_doors)
next
  assume out: "chosen \<notin> set (arange 3)"
  then show "fst (monty False \<lparr>door_entry = Inr chosen, reply = CHR ''y'' # cs\<rparr> g) = Inl ValueError"
    by (simp add: monty_outside_yes)
qed

theorem switch_invariant_witness:
  "(0::int) \<in> set (arange 3) \<and>
   (\<exists>c. decide True [] (arange 3) 0 (Arr [2]) = Inr (Arr [c]) \<and>
        decide False ''yes'' (arange 3) 0 (Arr [2]) = Inr (Arr [c]) \<and> c \<noteq> 0 \<and> c \<noteq> 2) \<and>
   (7::int) \<notin> set (arange 3) \<and>
   fst (monty False \<lparr>door_entry = Inr 7, reply = ''yes''\<rparr> (const_draws 2)) = Inl ValueError"
proof -
  have h: "(0::int) \<in> set (arange 3)" by (simp add: arange3)
  have o: "(7::int) \<notin> set (arange 3)" by (simp add: arange3)
  have p: "pick_montydoor (arange 3) 0 (cardoor_of (const_draws 1)) (const_draws 0) =
      (Inr (Arr [2]), const_draws 0)"
    by (simp add: arange3 cardoor_const_1 pick_montydoor_ne)
  from switch_invariant [of 0 "const_draws 1" "const_draws 0" "[]" "''es''"] h p
  have a: "\<exists>c. decide True [] (arange 3) 0 (Arr [2]) = Inr (Arr [c]) \<and>
        decide False ''yes'' (arange 3) 0 (Arr [2]) = Inr (Arr [c]) \<and> c \<noteq> 0 \<and> c \<noteq> 2"
    by auto
  from switch_invariant [of 7 "const_draws 2" "const_draws 0" "[]" "''es''"] o
  have b: "fst (monty False \<lparr>door_entry = Inr 7, reply = ''yes''\<rparr> (const_draws 2)) = Inl ValueError"
    by blast
  from h o a b show ?thesis by blast
qed

text \<open>
  C3. In simulation mode (player's door 0, always switching) \<^verbatim>\<open>monty\<close> returns whether
  the final door is the car's, and that is the case exactly when the car drawn is not
  behind door 0, for every generator.
\<close>

theorem simulation_outcome:
  "fst (monty True con g) = Inr (cardoor_of g \<noteq> 0) \<and>
   (\<exists>md g' c.
      pick_montydoor (arange 3) 0 (cardoor_of g) (\<lambda>i. g (Suc i)) = (Inr md, g') \<and>
      decide True (reply con) (arange 3) 0 md = Inr (Arr [c]) \<and>
      monty True con g = (Inr (c = cardoor_of g), g') \<and>
      (c = cardoor_of g) = (cardoor_of g \<noteq> 0))"
proof -
  consider "cardoor_of g = 0" | "cardoor_of g = 1" | "cardoor_of g = 2"
    using cardoor_of_cases by blast
  then show ?thesis
  proof cases
    case 1
    then show ?thesis
      by (simp add: monty_sim arange3 pick_same decide_def switch_door_def neither_SS)
  next
    case 2
    then show ?thesis
      by (simp add: monty_sim arange3 pick_montydoor_ne decide_def switch_door_def neither_SA)
  next
    case 3
    then show ?thesis
      by (simp add: monty_sim arange3 pick_montydoor_ne decide_def switch_door_def neither_SA)
  qed
qed

theorem simulation_outcome_witness:
  "fst (monty True idle_console (const_draws 2)) = Inr True \<and>
   fst (monty True idle_console (const_draws 0)) = Inr False"
  using simulation_outcome [of idle_console "const_draws 2"]
    simulation_outcome [of idle_console "const_draws 0"]
  by (simp add: cardoor_const_2 cardoor_const_0)


text \<open>
  C4. The fixed scenario: when the draw puts the car behind door 1, the simulation
  (player's door 0) reveals door 2 without a further draw, the switch moves the player to
  door 1, and the trial returns \<open>True\<close>.
\<close>

theorem fixed_scenario:
  "cardoor_of g = 1 \<Longrightarrow>
   pick_montydoor (arange 3) 0 (cardoor_of g) g1 = (Inr (Arr [2]), g1) \<and>
   decide True rep (arange 3) 0 (Arr [2]) = Inr (Arr [1]) \<and>
   truth_eq (Arr [1]) (cardoor_of g) = Inr True \<and>
   monty True con g = (Inr True, \<lambda>i. g (Suc i))"
  by (simp add: monty_sim arange3 pick_montydoor_ne decide_def switch_door_def neither_SA
      truth_eq_def)

theorem fixed_scenario_witness:
  "cardoor_of (const_draws 1) = 1 \<and>
   monty True idle_console (const_draws 1) = (Inr True, \<lambda>i. const_draws 1 (Suc i))"
proof -
  have h: "cardoor_of (const_draws 1) = 1" by (simp add: cardoor_const_1)
  from fixed_scenario [OF h] h show ?thesis by simp
qed

text \<open>
  C5 as the specification has it: a door outside 0, 1, 2 makes \<^verbatim>\<open>monty\<close> fail with
  \<open>InvalidInput\<close> before the reveal. The code has no such check: with the entry 5 and the
  reply \<open>n\<close> the trial runs to its end and returns \<open>False\<close>.
\<close>

theorem invalid_door_counterexample:
  "fst (monty False \<lparr>door_entry = Inr 5, reply = ''n''\<rparr> (const_draws 0)) = Inr False"
  by (simp add: monty_outside arange3)

text \<open>
  C5, amended. \<^verbatim>\<open>monty\<close> does not validate the door and raises \<open>InvalidInput\<close> on no path:
  no result of it is that error unless the conversion of the entry itself gave it. When
  the conversion of the entry raises, that exception leaves the function before the
  reveal, after the car's door has been drawn. A number outside 0, 1, 2 is accepted: the
  reveal step runs and gives the two doors other than the car's; with a reply that does
  not start with \<open>y\<close> the trial returns \<open>False\<close>, and with a reply that starts with \<open>y\<close>
  the switch raises \<^verbatim>\<open>ValueError\<close>.
\<close>

theorem no_door_validation:
  "monty False \<lparr>door_entry = Inl e, reply = rep\<rparr> g = (Inl e, \<lambda>i. g (Suc i)) \<and>
   (door_entry con \<noteq> Inl InvalidInput \<longrightarrow> fst (monty simulate con g) \<noteq> Inl InvalidInput) \<and>
   (d \<notin> set (arange 3) \<longrightarrow>
      pick_montydoor (arange 3) d (cardoor_of g) g1 =
        (Inr (Arr (filter (\<lambda>x. x \<noteq> cardoor_of g) (arange 3))), g1) \<and>
      length (filter (\<lambda>x. x \<noteq> cardoor_of g) (arange 3)) = 2 \<and>
      (c \<noteq> CHR ''y'' \<longrightarrow>
         monty False \<lparr>door_entry = Inr d, reply = c # cs\<rparr> g = (Inr False, \<lambda>i. g (Suc i))) \<and>
      monty False \<lparr>door_entry = Inr d, reply = CHR ''y'' # cs\<rparr> g =
        (Inl ValueError, \<lambda>i. g (Suc i)))"
proof -
  have "length (filter (\<lambda>x. x \<noteq> cardoor_of g) (arange 3)) = 2"
    using two_others [of g] by auto
  then show ?thesis
    by (simp add: monty_bad_entry monty_no_invalid pick_outside monty_outside monty_outside_yes)
qed

theorem no_door_validation_witness:
  "(5::int) \<notin> set (arange 3) \<and> CHR ''n'' \<noteq> CHR ''y'' \<and>
   door_entry \<lparr>door_entry = Inr 5, reply = ''y''\<rparr> \<noteq> Inl InvalidInput \<and>
   fst (monty False \<lparr>door_entry = Inr 5, reply = ''y''\<rparr> (const_draws 1)) \<noteq> Inl InvalidInput \<and>
   pick_montydoor (arange 3) 5 (cardoor_of (const_draws 1)) (const_draws 0) =
     (Inr (Arr [0, 2]), const_draws 0) \<and>
   monty False \<lparr>door_entry = Inr 5, reply = ''no''\<rparr> (const_draws 1) =
     (Inr False, \<lambda>i. const_draws 1 (Suc i)) \<and>
   monty False \<lparr>door_entry = Inr 5, reply = ''yo''\<rparr> (const_draws 1) =
     (Inl ValueError, \<lambda>i. const_draws 1 (Suc i)) \<and>
   monty False \<lparr>door_entry = Inl ValueError, reply = ''y''\<rparr> (const_draws 1) =
     (Inl ValueError, \<lambda>i. const_draws 1 (Suc i))"
proof -
  have h: "(5::int) \<notin> set (arange 3) \<and> CHR ''n'' \<noteq> CHR ''y'' \<and>
      door_entry \<lparr>door_entry = Inr 5, reply = ''y''\<rparr> \<noteq> Inl InvalidInput"
    by (simp add: arange3)
  from no_door_validation [where e = ValueError and rep = "''y''" and g = "const_draws 1"
      and con = "\<lparr>door_entry = Inr 5, reply = ''y''\<rparr>" and simulate = False and d = 5
      and ?g1.0 = "const_draws 0" and c = "CHR ''n''" and cs = "''o''"] h
  show ?thesis by (simp add: arange3 cardoor_const_1)
qed

text \<open>
  C6 as the specification has it: with \<open>n = 0\<close> the aggregator raises
  \<open>DegenerateTrialCount\<close>. The code raises nothing: the value it prints is \<open>nan\<close>.
\<close>

theorem zero_trials_counterexample:
  "fst (trial_aggregator 0 (const_draws 1)) = Inr NaN"
  by (simp add: trial_aggregator_def np_sum_def np_true_divide_def)

text \<open>
  C6, amended. With \<open>n = 0\<close> the loop runs no trial and takes no draw, and the quotient
  \<^verbatim>\<open>np.sum(results)/float(n)\<close> is \<open>nan\<close>; no exception is raised. The never-switch cell
  gives \<open>nan\<close> in the same way.
\<close>

theorem zero_trials_nan:
  "run_trials (nat 0) g = (Inr [], g) \<and>
   trial_aggregator 0 g = (Inr NaN, g) \<and>
   never_switch 0 g = (Inr NaN, g)"
  by (simp add: trial_aggregator_def never_switch_def choice_size_def eq_mask_Scalar
      np_sum_def np_true_divide_def)

theorem zero_trials_nan_witness:
  "trial_aggregator 0 (const_draws 2) = (Inr NaN, const_draws 2) \<and>
   never_switch 0 (const_draws 2) = (Inr NaN, const_draws 2)"
  using zero_trials_nan [of "const_draws 2"] by simp

text \<open>
  C7. Of the three residues of the draw that places the car, exactly two make the
  always-switch trial return \<open>True\<close>, whatever the later draws, and exactly one puts the
  car behind door 0: the success probabilities of one trial are 2/3 and 1/3. For \<open>n\<close>
  trials the draws are taken as the lists over \<open>[0..<6]\<close> of the length the cell can
  consume (\<open>2 * n\<close> for the loop over \<^verbatim>\<open>monty\<close>, \<open>n\<close> for the never-switch cell), all equally
  likely. The share of them for which the ratio \<^verbatim>\<open>np.sum(...)\<close> to \<open>n\<close> behind the printed
  rate is farther than 0.05 from 2/3 (from 1/3 for never-switch) is at most \<open>800 / (9 * n)\<close>
  for every \<open>n \<ge> 1\<close>, so it tends to 0, and it is below 1/11 for every \<open>n \<ge> 1000\<close>. The
  tolerance is stated for the exact ratio of the two operands of the division; the
  printed value is its rounding to a double.
\<close>

theorem win_probability:
  "length (filter (\<lambda>r. fst (monty True con (cons_draw r h)) = Inr True) [0..<3]) = 2 \<and>
   length (filter (\<lambda>r. fst (choice (arange 3) (cons_draw r h)) = Inr 0) [0..<3]) = 1 \<and>
   (0 < n \<longrightarrow>
      9 * n * length (filter (\<lambda>ds. \<not> ratio_within (2 / 3) (1 / 20)
          (fst (trial_aggregator (int n) (draws_from ds)))) (List.n_lists (2 * n) [0..<6]))
        \<le> 800 * 6 ^ (2 * n) \<and>
      9 * n * length (filter (\<lambda>ds. \<not> ratio_within (1 / 3) (1 / 20)
          (fst (never_switch (int n) (draws_from ds)))) (List.n_lists n [0..<6]))
        \<le> 800 * 6 ^ n) \<and>
   (1000 \<le> n \<longrightarrow>
      11 * length (filter (\<lambda>ds. \<not> ratio_within (2 / 3) (1 / 20)
          (fst (trial_aggregator (int n) (draws_from ds)))) (List.n_lists (2 * n) [0..<6]))
        \<le> 6 ^ (2 * n) \<and>
      11 * length (filter (\<lambda>ds. \<not> ratio_within (1 / 3) (1 / 20)
          (fst (never_switch (int n) (draws_from ds)))) (List.n_lists n [0..<6]))
        \<le> 6 ^ n)"
proof -
  let ?S = "length (filter (\<lambda>ds. \<not> ratio_within (2 / 3) (1 / 20)
          (fst (trial_aggregator (int n) (draws_from ds)))) (List.n_lists (2 * n) [0..<6]))"
  let ?N = "length (filter (\<lambda>ds. \<not> ratio_within (1 / 3) (1 / 20)
          (fst (never_switch (int n) (draws_from ds)))) (List.n_lists n [0..<6]))"
  have a: "length (filter (\<lambda>r. fst (monty True con (cons_draw r h)) = Inr True) [0..<3]) = 2"
    by (simp add: upt3 monty_sim cardoor_cons)
  have b: "length (filter (\<lambda>r. fst (choice (arange 3) (cons_draw r h)) = Inr 0) [0..<3]) = 1"
    by (simp add: upt3 arange3 choice_doors cardoor_cons)
  have c: "9 * n * ?S \<le> 800 * 6 ^ (2 * n)" "9 * n * ?N \<le> 800 * 6 ^ n" if "0 < n"
    using that by (rule switch_concentration, rule never_concentration)
  have d: "11 * ?S \<le> 6 ^ (2 * n)" "11 * ?N \<le> 6 ^ n" if big: "1000 \<le> n"
  proof -
    have pos: "0 < n" using big by simp
    have "9 * 1000 * ?S \<le> 9 * n * ?S" using big by (intro mult_right_mono mult_left_mono) simp_all
    with c(1) [OF pos] show "11 * ?S \<le> 6 ^ (2 * n)" by linarith
    have "9 * 1000 * ?N \<le> 9 * n * ?N" using big by (intro mult_right_mono mult_left_mono) simp_all
    with c(2) [OF pos] show "11 * ?N \<le> 6 ^ n" by linarith
  qed
  from a b c d show ?thesis by blast
qed

theorem win_probability_witness:
  "(1000::nat) \<le> 1000 \<and>
   11 * length (filter (\<lambda>ds. \<not> ratio_within (2 / 3) (1 / 20)
          (fst (trial_aggregator (int 1000) (draws_from ds)))) (List.n_lists (2 * 1000) [0..<6]))
        \<le> 6 ^ (2 * 1000) \<and>
   11 * length (filter (\<lambda>ds. \<not> ratio_within (1 / 3) (1 / 20)
          (fst (never_switch (int 1000) (draws_from ds)))) (List.n_lists 1000 [0..<6]))
        \<le> 6 ^ 1000 \<and>
   ratio_within (2 / 3) (1 / 20) (fst (trial_aggregator 3 (draws_from [1, 2, 0, 0]))) \<and>
   \<not> ratio_within (2 / 3) (1 / 20) (fst (trial_aggregator 3 (draws_from [0, 0, 0, 0, 0, 0])))"
proof -
  have h: "(1000::nat) \<le> 1000" by (rule order_refl)
  have e1: "ratio_within (2 / 3) (1 / 20) (fst (trial_aggregator 3 (draws_from [1, 2, 0, 0])))"
    by code_simp
  have e2: "\<not> ratio_within (2 / 3) (1 / 20)
      (fst (trial_aggregator 3 (draws_from [0, 0, 0, 0, 0, 0])))"
    by code_simp
  from win_probability [of idle_console "const_draws 0" 1000] h e1 e2 show ?thesis by blast
qed

text \<open>
  C8. The numerator \<open>n_ab\<close> of the at-least-one-girl cell is the numerator \<open>n_ab\<close> of the
  elder-girl cell, for all arrays \<open>child1\<close> and \<open>child2\<close>; for arrays of one length (the
  cells draw both with \<open>size=n\<close>) it is the number of families whose two children are
  girls.
\<close>

theorem both_girls_numerators:
  "n_ab_at_least_one child1 child2 = n_ab_elder child1 child2 \<and>
   (length child1 = length child2 \<longrightarrow>
      n_ab_elder child1 child2 =
        Inr (length (filter (\<lambda>(a, b). a = 0 \<and> b = 0) (zip child1 child2))))"
  by (simp add: n_ab_elder_def n_ab_at_least_one_def eq_mask_Scalar np_all_axis0_def
      sum_both_girls)

theorem both_girls_numerators_witness:
  "length [0, 0, 1::int] = length [0, 1, 1::int] \<and>
   n_ab_at_least_one [0, 0, 1] [0, 1, 1] = Inr 1 \<and> n_ab_elder [0, 0, 1] [0, 1, 1] = Inr 1"
  using both_girls_numerators [of "[0, 0, 1]" "[0, 1, 1]"] by simp

text \<open>
  C9 as the specification has it: every invocation of \<^verbatim>\<open>monty\<close> returns one boolean. In
  interactive mode an entry that is not a number makes the conversion raise, and the
  invocation returns nothing.
\<close>

theorem one_boolean_counterexample:
  "fst (monty False \<lparr>door_entry = Inl ValueError, reply = ''y''\<rparr> (const_draws 1)) =
     Inl ValueError"
  by (simp add: monty_bad_entry)

text \<open>
  C9, amended. The result of \<^verbatim>\<open>monty\<close> is a function of the flag, the console inputs and
  the first two draws of the generator (the car's door and, when the player's door is the
  car's, Monty's pick); the generator it leaves is the one it was given without its
  first or its first two draws, and nothing else is kept. In simulation mode every
  invocation returns one boolean; in interactive mode it does whenever the door entered
  is 0, 1 or 2 and the reply is not empty.
\<close>

theorem monty_deterministic:
  "(g 0 = h 0 \<and> g 1 = h 1 \<longrightarrow> fst (monty simulate con g) = fst (monty simulate con h)) \<and>
   (snd (monty simulate con g) = (\<lambda>i. g (Suc i)) \<or>
    snd (monty simulate con g) = (\<lambda>i. g (Suc (Suc i)))) \<and>
   (\<exists>b. fst (monty True con g) = Inr b) \<and>
   (door_entry con = Inr d \<and> d \<in> set (arange 3) \<and> reply con \<noteq> [] \<longrightarrow>
      (\<exists>b. fst (monty False con g) = Inr b))"
proof -
  have a: "fst (monty simulate con g) = fst (monty simulate con h)" if "g 0 = h 0 \<and> g 1 = h 1"
    using that by (intro monty_fst_cong) simp_all
  have b: "\<exists>b. fst (monty True con g) = Inr b"
    by (simp add: monty_sim)
  have c: "\<exists>b. fst (monty False con g) = Inr b"
    if h: "door_entry con = Inr d \<and> d \<in> set (arange 3) \<and> reply con \<noteq> []"
  proof -
    from h obtain x xs where r: "reply con = x # xs" by (cases "reply con") auto
    have "con = \<lparr>door_entry = Inr d, reply = x # xs\<rparr>"
      using h r by (cases con) simp
    then have "monty False con g = monty False \<lparr>door_entry = Inr d, reply = x # xs\<rparr> g"
      by simp
    with h show ?thesis by (simp add: monty_interactive)
  qed
  from a b c monty_snd [of simulate con g] show ?thesis by blast
qed

theorem monty_deterministic_witness:
  "const_draws 0 0 = cons_draw 0 (cons_draw 0 (const_draws 5)) 0 \<and>
   const_draws 0 1 = cons_draw 0 (cons_draw 0 (const_draws 5)) 1 \<and>
   fst (monty True idle_console (const_draws 0)) =
     fst (monty True idle_console (cons_draw 0 (cons_draw 0 (const_draws 5)))) \<and>
   door_entry \<lparr>door_entry = Inr 1, reply = ''n''\<rparr> = Inr 1 \<and> (1::int) \<in> set (arange 3) \<and>
   reply \<lparr>door_entry = Inr 1, reply = ''n''\<rparr> \<noteq> [] \<and>
   (\<exists>b. fst (monty False \<lparr>door_entry = Inr 1, reply = ''n''\<rparr> (const_draws 0)) = Inr b)"
proof -
  have h1: "const_draws 0 0 = cons_draw 0 (cons_draw 0 (const_draws 5)) 0 \<and>
      const_draws 0 1 = cons_draw 0 (cons_draw 0 (const_draws 5)) 1"
    by (simp add: const_draws_def cons_draw_def)
  have h2: "door_entry \<lparr>door_entry = Inr 1, reply = ''n''\<rparr> = Inr 1 \<and>
      (1::int) \<in> set (arange 3) \<and> reply \<lparr>door_entry = Inr 1, reply = ''n''\<rparr> \<noteq> []"
    by (simp add: arange3)
  from monty_deterministic [of "const_draws 0" "cons_draw 0 (cons_draw 0 (const_draws 5))"
      True idle_console 1] h1
  have r1: "fst (monty True idle_console (const_draws 0)) =
     fst (monty True idle_console (cons_draw 0 (cons_draw 0 (const_draws 5))))"
    by blast
  from monty_deterministic [of "const_draws 0" "const_draws 0" False
      "\<lparr>door_entry = Inr 1, reply = ''n''\<rparr>" 1] h2
  have r2: "\<exists>b. fst (monty False \<lparr>door_entry = Inr 1, reply = ''n''\<rparr> (const_draws 0)) = Inr b"
    by blast
  from h1 h2 r1 r2 show ?thesis by blast
qed

text \<open>
  C10. In interactive mode an empty reply makes \<^verbatim>\<open>reply[0]\<close> raise \<open>IndexError\<close>, whatever
  number was entered for the door. On a reply that is not empty the switch is taken
  exactly when its first character is the lower-case \<open>y\<close>: for a door among the three the
  trial then returns whether the door was not the car's, and otherwise (an upper-case
  \<open>Y\<close> included) whether it was.
\<close>

theorem reply_first_character:
  "fst (monty False \<lparr>door_entry = Inr d, reply = []\<rparr> g) = Inl IndexError \<and>
   decide False [] doors d md = Inl IndexError \<and>
   decide False (c # cs) doors d md =
     (if c = CHR ''y'' then switch_door doors (Scalar d) md else Inr (Scalar d)) \<and>
   (d \<in> set (arange 3) \<longrightarrow>
      fst (monty False \<lparr>door_entry = Inr d, reply = c # cs\<rparr> g) =
        Inr (if c = CHR ''y'' then d \<noteq> cardoor_of g else d = cardoor_of g)) \<and>
   (d \<in> set (arange 3) \<longrightarrow>
      fst (monty False \<lparr>door_entry = Inr d, reply = CHR ''Y'' # cs\<rparr> g) =
        Inr (d = cardoor_of g))"
proof -
  have no_reply: "fst (monty False \<lparr>door_entry = Inr d, reply = []\<rparr> g) = Inl IndexError"
    by (rule monty_empty_reply)
  have decision: "decide False [] doors d md = Inl IndexError"
    "decide False (c # cs) doors d md =
       (if c = CHR ''y'' then switch_door doors (Scalar d) md else Inr (Scalar d))"
    by (simp_all add: decide_def)
  have played: "fst (monty False \<lparr>door_entry = Inr d, reply = x # cs\<rparr> g) =
      Inr (if x = CHR ''y'' then d \<noteq> cardoor_of g else d = cardoor_of g)"
    if "d \<in> set (arange 3)" for x
    using that by (simp add: monty_interactive)
  from played [of c] played [of "CHR ''Y''"] no_reply decision show ?thesis
    by simp
qed

theorem reply_first_character_witness:
  "(1::int) \<in> set (arange 3) \<and>
   fst (monty False \<lparr>door_entry = Inr 1, reply = []\<rparr> (const_draws 2)) = Inl IndexError \<and>
   fst (monty False \<lparr>door_entry = Inr 1, reply = ''yes''\<rparr> (const_draws 2)) = Inr True \<and>
   fst (monty False \<lparr>door_entry = Inr 1, reply = ''Yes''\<rparr> (const_draws 2)) = Inr False"
proof -
  have h: "(1::int) \<in> set (arange 3)" by (simp add: arange3)
  from reply_first_character [of 1 "const_draws 2" "[]" "Scalar 0" "CHR ''y''" "''es''"] h
  show ?thesis by (simp add: cardoor_const_2)
qed



end
